theory Spec2Isabelle
  imports Main "HOL-Library.Sublist"
begin

section \<open>Values and types\<close>

text \<open>
  JavaScript values as far as Base.js handles them. Numbers are integers here. A model
  instance that is stored as a value (a has-one child, an item of a collection) is
  \<open>VInst chain data\<close>: the names of its definition and of the definitions it derives
  from, and its private store \<open>_data\<close>. A super-collection is \<open>VColl type id items\<close>.
\<close>

datatype val =
    VUndef
  | VNull
  | VBool bool
  | VNum int
  | VStr string
  | VArr "val list"
  | VObj "(string \<times> val) list"
  | VInst "string list" "(string \<times> val) list"
  | VColl string string "val list"

text \<open>
  What a declaration's \<open>type\<close> may be: one of the tags of super-is, a model definition
  (by name), or \<open>Collection\<close> (the type initHasMany declares).
\<close>

datatype ty = TString | TNumber | TBoolean | TArray | TModel string | TCollection

datatype exn =
    TypeViolation ty val
  | Aggregate "exn list"
  | JsTypeError

text \<open>
  Modelled from the spec: \<open>typeOf\<close> and \<open>enforce\<close> of the external module super-is are
  not part of the repository. \<open>typeOf type value\<close> tells whether the value's runtime type
  satisfies \<open>type\<close> (for a model definition: the definition is in the prototype chain of
  the value); \<open>enforce\<close> throws a type violation carrying the declared type and the
  offending value when it does not, and has no effect otherwise.
\<close>

fun typeOf :: "ty \<Rightarrow> val \<Rightarrow> bool" where
  "typeOf TString (VStr s) = True"
| "typeOf TNumber (VNum n) = True"
| "typeOf TBoolean (VBool b) = True"
| "typeOf TArray (VArr xs) = True"
| "typeOf (TModel d) (VInst chain dat) = (d \<in> set chain)"
| "typeOf TCollection (VColl t i xs) = True"
| "typeOf t v = False"

definition enforce :: "ty \<Rightarrow> val \<Rightarrow> exn option" where
  "enforce t v = (if typeOf t v then None else Some (TypeViolation t v))"

text \<open>JavaScript truthiness, as the \<open>if (value)\<close> of the \<open>edit\<close> setter reads it.\<close>

fun truthy :: "val \<Rightarrow> bool" where
  "truthy VUndef = False"
| "truthy VNull = False"
| "truthy (VBool b) = b"
| "truthy (VNum n) = (n \<noteq> 0)"
| "truthy (VStr s) = (s \<noteq> [])"
| "truthy v = True"

text \<open>
  String conversion as \<open>model.id + "-" + name\<close> performs it. Only the cases an id can
  take in the model are spelled out; every other value prints as an object.
\<close>

fun js_str :: "val \<Rightarrow> string" where
  "js_str VUndef = ''undefined''"
| "js_str VNull = ''null''"
| "js_str (VBool b) = (if b then ''true'' else ''false'')"
| "js_str (VStr s) = s"
| "js_str v = ''[object Object]''"

section \<open>Dictionaries\<close>

text \<open>
  A JavaScript object used as a dictionary is an association list in insertion order.
  \<open>hasOwnKey\<close> is the membership test of super-is, \<open>put\<close> is \<open>o[k] = v\<close>: an existing key
  keeps its place, a new key goes last.
\<close>

definition hasOwnKey :: "string \<Rightarrow> (string \<times> 'a) list \<Rightarrow> bool" where
  "hasOwnKey k d = (k \<in> set (map fst d))"

fun put :: "(string \<times> 'a) list \<Rightarrow> string \<Rightarrow> 'a \<Rightarrow> (string \<times> 'a) list" where
  "put [] k v = [(k, v)]"
| "put ((k', v') # d) k v = (if k' = k then (k, v) # d else (k', v') # put d k v)"

definition lookup :: "(string \<times> val) list \<Rightarrow> string \<Rightarrow> val" where
  "lookup d k = (case map_of d k of None \<Rightarrow> VUndef | Some v \<Rightarrow> v)"

section \<open>Definition merge\<close>

text \<open>
  \<open>__preCreate__\<close> merges each of \<open>properties\<close>, \<open>hasMany\<close> and \<open>hasOne\<close> with
  \<open>reduce(chain([derived, base]), step, {})\<close>: the entries of the derived dictionary
  first, then those of the base, each written only when its key is not yet there.
\<close>

definition merge_step :: "(string \<times> 'a) list \<Rightarrow> string \<times> 'a \<Rightarrow> (string \<times> 'a) list" where
  "merge_step acc kv = (if \<not> hasOwnKey (fst kv) acc then put acc (fst kv) (snd kv) else acc)"

definition merge :: "(string \<times> 'a) list \<Rightarrow> (string \<times> 'a) list \<Rightarrow> (string \<times> 'a) list" where
  "merge derived base = foldl merge_step [] (derived @ base)"

section \<open>Declarations, definitions, instances\<close>

text \<open>
  Setters and observers are JavaScript functions in the source. The model has the ones
  Base.js itself contains, and a pure transformation for a user's own:
  \<^item> \<open>Transform f\<close>: a setter that returns \<open>f value\<close> and does nothing else
    (\<open>identity\<close> is \<open>Transform id\<close>);
  \<^item> \<open>EditSetter\<close>: the setter of the built-in property \<open>edit\<close>;
  \<^item> \<open>HasOneSetter relation\<close>: the setter initHasOne installs;
  \<^item> \<open>Observer target f\<close>: an observer of the shape \<open>this.target = f(this)\<close>, as the one
    of the built-in property \<open>locked\<close>, where \<open>f\<close> reads properties of the instance.
  A getter is a pure function of the stored value.
\<close>

datatype setter = Transform "val \<Rightarrow> val" | EditSetter | HasOneSetter string

datatype observer = Observer string "(string \<Rightarrow> val) \<Rightarrow> val"

record decl =
  dtype :: "ty option"
  defaultValue :: val
  sync :: bool
  getf :: "(val \<Rightarrow> val) option"
  setf :: "setter option"
  on :: "(string \<times> observer) list"
  enumerable :: "bool option"

text \<open>
  A model definition after \<open>__preCreate__\<close>: its own name followed by the names of the
  definitions it derives from, and the three merged dictionaries. A relation names the
  child definition; the definitions in scope are a table \<open>defs\<close>.
\<close>

record defn =
  chain :: "string list"
  EDIT_EVENT :: val
  properties :: "(string \<times> decl) list"
  hasMany :: "(string \<times> string) list"
  hasOne :: "(string \<times> string) list"

type_synonym defs = "(string \<times> defn) list"

text \<open>
  Objects have an identity: every instance gets a number \<open>oid\<close> when it is created,
  and \<open>objects\<close> counts the instances created so far. \<open>uuids\<close> counts the calls of
  \<open>uuid.v4\<close>.

  The events emitted on \<open>process\<close>:
  \<^item> \<open>Sync oid id property value\<close>: the event \<open>sync\<close> with its payload
    \<open>{id, property, value}\<close>; \<open>oid\<close> is the identity of the model whose setter emitted
    it, which the payload does not carry and the model keeps to tell whose write it was;
  \<^item> \<open>EditEvent name model\<close>: the edit event, named by \<open>EDIT_EVENT\<close>, with the model
    of its payload (none when the setter runs unbound);
  \<^item> \<open>RegistryAdd oid instance\<close>: \<open>registry:add\<close> with the instance, by identity
    and as the value it has at that moment.
\<close>

datatype pevent = Sync nat val string val | EditEvent val "nat option" | RegistryAdd nat val

record world =
  bus :: "pevent list"
  uuids :: nat
  objects :: nat

text \<open>
  An instance: its identity, the definition it was created from (its prototype), the accessors
  createProperty defined on it (name, declaration, enumerable), the private store
  \<open>_data\<close>, the flag \<open>_dropsync\<close>, own properties written without an accessor, the
  observers registered with \<open>model.on\<close>, and the local events \<open>model.emit\<close> has emitted.

  \<open>Object.defineProperty(model, '_data', Object.create(model._data))\<close> passes the new
  object as a property descriptor; it has no descriptor field unless a property is
  named so, so \<open>_data\<close> stays one object and \<open>model._data[name] = value\<close> writes into it.

  The bookkeeping the event emitter keeps on the instance is not part of the model: the
  enumerable own properties of an instance are its enumerable accessors, and an event
  named \<open>error\<close> is emitted like any other.
\<close>

record inst =
  oid :: nat
  proto :: defn
  accessors :: "(string \<times> decl \<times> bool) list"
  data_store :: "(string \<times> val) list"
  dropsync :: bool
  plain :: "(string \<times> val) list"
  listeners :: "(string \<times> observer) list"
  emitted :: "(string \<times> val) list"

type_synonym state = "world \<times> inst"

definition to_val :: "inst \<Rightarrow> val" where
  "to_val m = VInst (chain (proto m)) (data_store m)"

definition the_get :: "decl \<Rightarrow> val \<Rightarrow> val" where
  "the_get d = (case getf d of None \<Rightarrow> id | Some g \<Rightarrow> g)"

definition the_set :: "decl \<Rightarrow> setter" where
  "the_set d = (case setf d of None \<Rightarrow> Transform id | Some f \<Rightarrow> f)"

text \<open>\<open>model[name]\<close>: the getter of the accessor, or the plain own property.\<close>

definition read :: "inst \<Rightarrow> string \<Rightarrow> val" where
  "read m name = (case map_of (accessors m) name of
      Some (d, en) \<Rightarrow> the_get d (lookup (data_store m) name)
    | None \<Rightarrow> lookup (plain m) name)"

definition own_keys :: "inst \<Rightarrow> string list" where
  "own_keys m = ''_data'' # ''_dropsync'' # map fst (accessors m)"

definition emit_process :: "pevent \<Rightarrow> world \<Rightarrow> world" where
  "emit_process ev w = w\<lparr>bus := bus w @ [ev]\<rparr>"

definition observers_of :: "inst \<Rightarrow> string \<Rightarrow> observer list" where
  "observers_of m name = map snd (filter (\<lambda>l. fst l = name) (listeners m))"

section \<open>Materialising accessors\<close>

text \<open>
  createProperty: fill in \<open>get\<close> and \<open>set\<close>, define the accessor, seed the store with
  \<open>definition.set(defaultValue)\<close> (a fresh \<open>[]\<close> for an array default), register the
  observers. At seeding the setter is called unbound, so a truthy default of the \<open>edit\<close>
  setter emits on \<open>process\<close> an event whose name and model are read from the global
  object. The declaration of initHasOne has no default, so its setter is never seeded.
\<close>

definition seed :: "state \<Rightarrow> string \<Rightarrow> decl \<Rightarrow> state" where
  "seed s name d =
    (if defaultValue d = VUndef then s
     else
       let v = (if typeOf TArray (defaultValue d) then VArr [] else defaultValue d);
           w = fst s; m = snd s
       in (case the_set d of
             Transform f \<Rightarrow> (w, m\<lparr>data_store := put (data_store m) name (f v)\<rparr>)
           | EditSetter \<Rightarrow>
               (if truthy v then emit_process (EditEvent VUndef None) w else w,
                m\<lparr>data_store := put (data_store m) name v\<rparr>)
           | HasOneSetter rel \<Rightarrow> (w, m\<lparr>data_store := put (data_store m) name v\<rparr>)))"

definition createProperty :: "state \<Rightarrow> string \<Rightarrow> decl \<Rightarrow> bool \<Rightarrow> state" where
  "createProperty s name d en =
    (let d' = d\<lparr>getf := Some (the_get d), setf := Some (the_set d)\<rparr>;
         s1 = (fst s, (snd s)\<lparr>accessors := accessors (snd s) @ [(name, d', en)]\<rparr>);
         s2 = seed s1 name d'
     in (fst s2, (snd s2)\<lparr>listeners := listeners (snd s2) @ on d'\<rparr>))"

definition initProperties :: "state \<Rightarrow> state" where
  "initProperties s =
    foldl (\<lambda>s (name, d).
        if name \<notin> set (own_keys (snd s))
        then createProperty s name d (\<not> (enumerable d = Some False))
        else s)
      (fst s, (snd s)\<lparr>data_store := [], dropsync := False\<rparr>)
      (properties (proto (snd s)))"

definition initHasMany :: "state \<Rightarrow> state" where
  "initHasMany s =
    foldl (\<lambda>s (name, relation).
        if name \<notin> set (own_keys (snd s))
        then createProperty s name
               \<lparr>dtype = Some TCollection,
                defaultValue = VColl relation (js_str (read (snd s) ''id'') @ ''-'' @ name) [],
                sync = False, getf = None, setf = None, on = [], enumerable = None\<rparr>
               False
        else s)
      s (hasMany (proto (snd s)))"

definition initHasOne :: "state \<Rightarrow> state" where
  "initHasOne s =
    foldl (\<lambda>s (name, relation).
        if name \<notin> set (own_keys (snd s))
        then createProperty s name
               \<lparr>dtype = Some (TModel relation), defaultValue = VUndef,
                sync = False, getf = None, setf = Some (HasOneSetter relation),
                on = [], enumerable = None\<rparr>
               False
        else s)
      s (hasOne (proto (snd s)))"

text \<open>A new object whose prototype is the definition, before \<open>__init__\<close> runs.\<close>

definition create :: "defn \<Rightarrow> world \<Rightarrow> state" where
  "create D w =
    (w\<lparr>objects := Suc (objects w)\<rparr>,
     \<lparr>oid = objects w, proto = D, accessors = [], data_store = [], dropsync = False,
      plain = [], listeners = [], emitted = []\<rparr>)"

text \<open>The instance after initProperties, initHasMany and initHasOne.\<close>

definition materialise :: "defn \<Rightarrow> world \<Rightarrow> state" where
  "materialise D w = initHasOne (initHasMany (initProperties (create D w)))"

text \<open>
  Raw data: \<open>data || {}\<close>, then \<open>data.id = uuid.v4()\<close> when \<open>data.id\<close> is undefined.
  A plain object is \<open>VObj\<close>; any other truthy value is read as an object without own
  keys, and the id written on a primitive is lost.
\<close>

text \<open>
  Modelled from the spec: the identifier generator \<open>uuid.v4\<close> is an external module;
  it returns a different string at every call.
\<close>

definition uuid_of :: "nat \<Rightarrow> string" where
  "uuid_of n = ''uuid-'' @ replicate n CHR ''1''"

fun raw_fields :: "val \<Rightarrow> (string \<times> val) list" where
  "raw_fields (VObj d) = d"
| "raw_fields v = []"

fun is_primitive :: "val \<Rightarrow> bool" where
  "is_primitive (VBool b) = True"
| "is_primitive (VNum n) = True"
| "is_primitive (VStr s) = True"
| "is_primitive v = False"

definition with_id :: "world \<Rightarrow> val \<Rightarrow> world \<times> (string \<times> val) list" where
  "with_id w data =
    (let d = (if truthy data then data else VObj [])
     in if lookup (raw_fields d) ''id'' = VUndef
        then (w\<lparr>uuids := Suc (uuids w)\<rparr>,
              if is_primitive d then raw_fields d
              else put (raw_fields d) ''id'' (VStr (uuid_of (uuids w))))
        else (w, raw_fields d))"

text \<open>The items \<open>forEach(data[name], ...)\<close> visits.\<close>

fun items_of :: "val \<Rightarrow> val list" where
  "items_of (VArr xs) = xs"
| "items_of (VObj d) = map snd d"
| "items_of v = []"

section \<open>The write pipeline and the constructor\<close>

text \<open>
  A setter may construct a child, the constructor assigns properties, and an observer
  assigns again from inside an assignment. The two entry points, the accessor's setter
  and \<open>init\<close>, are therefore defined together, with fuel that bounds the depth of nested
  calls: \<open>None\<close> means the fuel ran out. The functions below take the two entry points
  of the next depth as arguments. An outcome is the exception thrown, if any, together
  with the state reached, since what was written before a throw stays written.
\<close>

type_synonym assigner = "state \<Rightarrow> string \<Rightarrow> val \<Rightarrow> (exn option \<times> state) option"

type_synonym initer =
  "world \<Rightarrow> string \<Rightarrow> val \<Rightarrow> exn list option \<Rightarrow> ((exn + inst) \<times> world \<times> exn list) option"

text \<open>\<open>model.emit(name, ...)\<close>: the observers registered for \<open>name\<close> run in order.\<close>

fun emit :: "assigner \<Rightarrow> state \<Rightarrow> observer list \<Rightarrow> (exn option \<times> state) option" where
  "emit asg s [] = Some (None, s)"
| "emit asg s (Observer target f # obs) =
    (case asg s target (f (read (snd s))) of
       None \<Rightarrow> None
     | Some (Some e, s') \<Rightarrow> Some (Some e, s')
     | Some (None, s') \<Rightarrow> emit asg s' obs)"

text \<open>The function \<open>set\<close> of Base.js.\<close>

definition set_prop ::
  "assigner \<Rightarrow> state \<Rightarrow> string \<Rightarrow> decl \<Rightarrow> val \<Rightarrow> (exn option \<times> state) option" where
  "set_prop asg s name d v =
    (case (case dtype d of None \<Rightarrow> None | Some t \<Rightarrow> enforce t v) of
       Some e \<Rightarrow> Some (Some e, s)
     | None \<Rightarrow>
        (case emit asg
                (fst s, (snd s)\<lparr>data_store := put (data_store (snd s)) name v,
                                emitted := emitted (snd s) @ [(name, v)]\<rparr>)
                (observers_of (snd s) name) of
           None \<Rightarrow> None
         | Some (Some e, s') \<Rightarrow> Some (Some e, s')
         | Some (None, s') \<Rightarrow>
             (if \<not> sync d \<or> dropsync (snd s') then Some (None, s')
              else Some (None, (emit_process
                                  (Sync (oid (snd s')) (read (snd s') ''id'') name v) (fst s'),
                                snd s')))))"

text \<open>
  \<open>model[name] = value\<close>: the setter createProperty installed,
  \<open>set(this, name, definition, definition.set.call(this, value))\<close>, or a plain write
  when the instance has no accessor of that name.
\<close>

definition assign_body :: "assigner \<Rightarrow> initer \<Rightarrow> assigner" where
  "assign_body asg ini s name v =
    (case map_of (accessors (snd s)) name of
       None \<Rightarrow> Some (None, (fst s, (snd s)\<lparr>plain := put (plain (snd s)) name v\<rparr>))
     | Some (d, en) \<Rightarrow>
        (case the_set d of
           Transform f \<Rightarrow> set_prop asg s name d (f v)
         | EditSetter \<Rightarrow>
             set_prop asg
               (if truthy v
                then (emit_process
                        (EditEvent (EDIT_EVENT (proto (snd s))) (Some (oid (snd s)))) (fst s),
                      snd s)
                else s)
               name d v
         | HasOneSetter relation \<Rightarrow>
             (if typeOf (TModel relation) v then set_prop asg s name d v
              else (case ini (fst s) relation v None of
                      None \<Rightarrow> None
                    | Some (Inl e, w, errs) \<Rightarrow> Some (Some e, (w, snd s))
                    | Some (Inr c, w, errs) \<Rightarrow> set_prop asg (w, snd s) name d (to_val c)))))"

text \<open>
  updateProperties: \<open>model.id = data.id\<close>, then every enumerable own property whose
  name is in the data is assigned, an exception going to \<open>e.errors\<close>.
\<close>

fun updateEach ::
  "assigner \<Rightarrow> state \<Rightarrow> (string \<times> val) list \<Rightarrow> exn list \<Rightarrow> string list
     \<Rightarrow> (state \<times> exn list) option" where
  "updateEach asg s dat errs [] = Some (s, errs)"
| "updateEach asg s dat errs (name # names) =
    (if hasOwnKey name dat
     then (case asg s name (lookup dat name) of
             None \<Rightarrow> None
           | Some (None, s') \<Rightarrow> updateEach asg s' dat errs names
           | Some (Some err, s') \<Rightarrow> updateEach asg s' dat (errs @ [err]) names)
     else updateEach asg s dat errs names)"

definition enumerable_keys :: "inst \<Rightarrow> string list" where
  "enumerable_keys m = map fst (filter (\<lambda>a. snd (snd a)) (accessors m))"

definition updateProperties ::
  "assigner \<Rightarrow> state \<Rightarrow> (string \<times> val) list \<Rightarrow> exn list
     \<Rightarrow> (exn option \<times> state \<times> exn list) option" where
  "updateProperties asg s dat errs =
    (case asg s ''id'' (lookup dat ''id'') of
       None \<Rightarrow> None
     | Some (Some x, s') \<Rightarrow> Some (Some x, s', errs)
     | Some (None, s') \<Rightarrow>
        (case updateEach asg s' dat errs (enumerable_keys (snd s')) of
           None \<Rightarrow> None
         | Some (s'', errs') \<Rightarrow> Some (None, s'', errs')))"

text \<open>
  createHasMany: \<open>model[name].add(relation.init(data, e))\<close> for every item under a
  has-many name. \<open>model[name]\<close> is read first, so an undefined or null one throws before
  the child is built. The collection type is an external module; its \<open>add\<close> appends
  the item, as the specification says of it.
\<close>

fun addEach ::
  "initer \<Rightarrow> state \<Rightarrow> string \<Rightarrow> string \<Rightarrow> val list \<Rightarrow> exn list
     \<Rightarrow> (exn option \<times> state \<times> exn list) option" where
  "addEach ini s name relation [] errs = Some (None, s, errs)"
| "addEach ini s name relation (x # xs) errs =
    (if read (snd s) name = VUndef \<or> read (snd s) name = VNull
     then Some (Some JsTypeError, s, errs)
     else (case ini (fst s) relation x (Some errs) of
             None \<Rightarrow> None
           | Some (Inl e, w, errs') \<Rightarrow> Some (Some e, (w, snd s), errs')
           | Some (Inr c, w, errs') \<Rightarrow>
              (case read (snd s) name of
                 VColl t i its \<Rightarrow>
                   addEach ini
                     (w, (snd s)\<lparr>data_store :=
                            put (data_store (snd s)) name (VColl t i (its @ [to_val c]))\<rparr>)
                     name relation xs errs'
               | other \<Rightarrow> Some (Some JsTypeError, (w, snd s), errs'))))"

fun createHasMany ::
  "initer \<Rightarrow> state \<Rightarrow> (string \<times> val) list \<Rightarrow> exn list \<Rightarrow> (string \<times> string) list
     \<Rightarrow> (exn option \<times> state \<times> exn list) option" where
  "createHasMany ini s dat errs [] = Some (None, s, errs)"
| "createHasMany ini s dat errs ((name, relation) # rels) =
    (if hasOwnKey name dat
     then (case addEach ini s name relation (items_of (lookup dat name)) errs of
             None \<Rightarrow> None
           | Some (Some x, s', errs') \<Rightarrow> Some (Some x, s', errs')
           | Some (None, s', errs') \<Rightarrow> createHasMany ini s' dat errs' rels)
     else createHasMany ini s dat errs rels)"

text \<open>createHasOne: \<open>model[name] = relation.init(data[name], e)\<close>.\<close>

fun createHasOne ::
  "assigner \<Rightarrow> initer \<Rightarrow> state \<Rightarrow> (string \<times> val) list \<Rightarrow> exn list \<Rightarrow> (string \<times> string) list
     \<Rightarrow> (exn option \<times> state \<times> exn list) option" where
  "createHasOne asg ini s dat errs [] = Some (None, s, errs)"
| "createHasOne asg ini s dat errs ((name, relation) # rels) =
    (if hasOwnKey name dat
     then (case ini (fst s) relation (lookup dat name) (Some errs) of
             None \<Rightarrow> None
           | Some (Inl e, w, errs') \<Rightarrow> Some (Some e, (w, snd s), errs')
           | Some (Inr c, w, errs') \<Rightarrow>
              (case asg (w, snd s) name (to_val c) of
                 None \<Rightarrow> None
               | Some (Some e, s') \<Rightarrow> Some (Some e, s', errs')
               | Some (None, s') \<Rightarrow> createHasOne asg ini s' dat errs' rels))
     else createHasOne asg ini s dat errs rels)"

text \<open>
  \<open>__init__\<close>, reached through \<open>Definition.init(data, e)\<close>. Without \<open>e\<close> the call owns
  the error list and throws it when it is not empty; with \<open>e\<close> it appends to the
  caller's list and does not throw it. The result is the instance or the exception,
  the world, and the error list.
\<close>

definition init_body :: "defs \<Rightarrow> assigner \<Rightarrow> initer \<Rightarrow> initer" where
  "init_body ds asg ini w dn data e =
    (let errs = (case e of None \<Rightarrow> [] | Some es \<Rightarrow> es) in
     case map_of ds dn of
       None \<Rightarrow> Some (Inl JsTypeError, w, errs)
     | Some D \<Rightarrow>
        (case with_id w data of (w1, dat) \<Rightarrow>
        (case updateProperties asg (materialise D w1) dat errs of
           None \<Rightarrow> None
         | Some (Some x, s1, errs1) \<Rightarrow> Some (Inl x, fst s1, errs1)
         | Some (None, s1, errs1) \<Rightarrow>
        (case createHasMany ini s1 dat errs1 (hasMany (proto (snd s1))) of
           None \<Rightarrow> None
         | Some (Some x, s2, errs2) \<Rightarrow> Some (Inl x, fst s2, errs2)
         | Some (None, s2, errs2) \<Rightarrow>
        (case createHasOne asg ini s2 dat errs2 (hasOne (proto (snd s2))) of
           None \<Rightarrow> None
         | Some (Some x, s3, errs3) \<Rightarrow> Some (Inl x, fst s3, errs3)
         | Some (None, s3, errs3) \<Rightarrow>
             (if e = None \<and> errs3 \<noteq> [] then Some (Inl (Aggregate errs3), fst s3, errs3)
              else Some (Inr (snd s3),
                         emit_process (RegistryAdd (oid (snd s3)) (to_val (snd s3))) (fst s3),
                         errs3)))))))"

primrec procs :: "nat \<Rightarrow> defs \<Rightarrow> assigner \<times> initer" where
  "procs 0 ds = ((\<lambda>s name v. None), (\<lambda>w dn data e. None))"
| "procs (Suc n) ds =
    (assign_body (fst (procs n ds)) (snd (procs n ds)),
     init_body ds (fst (procs n ds)) (snd (procs n ds)))"

definition assign :: "nat \<Rightarrow> defs \<Rightarrow> assigner" where
  "assign n ds = fst (procs n ds)"

definition init :: "nat \<Rightarrow> defs \<Rightarrow> initer" where
  "init n ds = snd (procs n ds)"


section \<open>The definition Base and its derivations\<close>

definition plain_decl :: decl where
  "plain_decl = \<lparr>dtype = None, defaultValue = VUndef, sync = False, getf = None,
                 setf = None, on = [], enumerable = None\<rparr>"

definition Base :: defn where
  "Base = \<lparr>chain = [''Base''], EDIT_EVENT = VNull,
     properties =
       [(''id'', plain_decl\<lparr>dtype := Some TString, enumerable := Some False\<rparr>),
        (''edit'', plain_decl\<lparr>dtype := Some TBoolean, defaultValue := VBool False,
                     setf := Some EditSetter, enumerable := Some False\<rparr>),
        (''locked'', plain_decl\<lparr>dtype := Some TBoolean, defaultValue := VBool False,
                     sync := True,
                     on := [(''edit'', Observer ''locked'' (\<lambda>this. this ''edit''))],
                     enumerable := Some False\<rparr>)],
     hasMany = [], hasOne = []\<rparr>"

text \<open>
  \<open>__preCreate__\<close> on one of the three dictionaries: \<open>definition[property]\<close> may be
  absent, and so may \<open>this[property]\<close>. \<open>extend\<close> derives a definition from \<open>this\<close>.
\<close>

definition preCreate ::
  "(string \<times> 'a) list option \<Rightarrow> (string \<times> 'a) list option \<Rightarrow> (string \<times> 'a) list" where
  "preCreate derived this =
    merge (case derived of None \<Rightarrow> [] | Some d \<Rightarrow> d) (case this of None \<Rightarrow> [] | Some b \<Rightarrow> b)"

definition extend ::
  "defn \<Rightarrow> string \<Rightarrow> val option \<Rightarrow> (string \<times> decl) list option
     \<Rightarrow> (string \<times> string) list option \<Rightarrow> (string \<times> string) list option \<Rightarrow> defn" where
  "extend this name ev props many one =
    \<lparr>chain = name # chain this,
     EDIT_EVENT = (case ev of None \<Rightarrow> EDIT_EVENT this | Some v \<Rightarrow> v),
     properties = preCreate props (Some (properties this)),
     hasMany = preCreate many (Some (hasMany this)),
     hasOne = preCreate one (Some (hasOne this))\<rparr>"

text \<open>The entries of a dictionary that may be absent.\<close>

definition entries :: "(string \<times> 'a) list option \<Rightarrow> string \<Rightarrow> 'a option" where
  "entries d = (case d of None \<Rightarrow> Map.empty | Some xs \<Rightarrow> map_of xs)"

section \<open>The definitions of the test suite\<close>

text \<open>
  The child and parent definitions of the repository's tests, without the two
  properties whose getter and setter are not pure functions of one value
  (\<open>getTest\<close>, \<open>setTest\<close>).
\<close>

definition ChildModel :: defn where
  "ChildModel = extend Base ''ChildModel'' None
     (Some [(''name'', plain_decl\<lparr>dtype := Some TString\<rparr>)]) None None"

definition Model :: defn where
  "Model = extend Base ''Model'' (Some (VStr ''editTest''))
     (Some [(''anyTest'', plain_decl),
            (''stringTest'', plain_decl\<lparr>dtype := Some TString\<rparr>),
            (''numberTest'', plain_decl\<lparr>dtype := Some TNumber\<rparr>),
            (''booleanTest'', plain_decl\<lparr>dtype := Some TBoolean\<rparr>),
            (''arrayTest'', plain_decl\<lparr>dtype := Some TArray\<rparr>),
            (''defaultValueTest'', plain_decl\<lparr>defaultValue := VNum 100\<rparr>),
            (''syncTest'', plain_decl\<lparr>sync := True\<rparr>),
            (''onTest'', plain_decl\<lparr>on :=
               [(''anyTest'', Observer ''onTest'' (\<lambda>this. VBool (this ''anyTest'' = VNum 100)))]\<rparr>)])
     (Some [(''children'', ''ChildModel'')])
     (Some [(''onInit'', ''ChildModel''), (''afterInit'', ''ChildModel'')])"

definition test_defs :: defs where
  "test_defs = [(''Base'', Base), (''ChildModel'', ChildModel), (''Model'', Model)]"

definition world0 :: world where
  "world0 = \<lparr>bus = [], uuids = 0, objects = 0\<rparr>"

text \<open>Reading an outcome: what was thrown, and the state or instance reached.\<close>

definition thrown :: "(exn option \<times> state) option \<Rightarrow> exn option option" where
  "thrown r = map_option fst r"

definition state_of :: "(exn option \<times> state) option \<Rightarrow> state" where
  "state_of r = (case r of Some (x, s) \<Rightarrow> s | None \<Rightarrow> (world0, snd (create Base world0)))"

definition init_thrown :: "((exn + inst) \<times> world \<times> exn list) option \<Rightarrow> exn option option" where
  "init_thrown r = (case r of None \<Rightarrow> None | Some (Inl e, w, errs) \<Rightarrow> Some (Some e)
                     | Some (Inr m, w, errs) \<Rightarrow> Some None)"

definition init_state :: "((exn + inst) \<times> world \<times> exn list) option \<Rightarrow> state" where
  "init_state r = (case r of Some (Inr m, w, errs) \<Rightarrow> (w, m)
                    | Some (Inl e, w, errs) \<Rightarrow> (w, snd (create Base world0))
                    | None \<Rightarrow> (world0, snd (create Base world0)))"

section \<open>Whose events\<close>

text \<open>
  The part of an instance no assignment changes (local events are only added), and
  what a run may add to the bus. \<open>ev_ok b self\<close> holds of an event when it comes from
  an object created at or after the \<open>b\<close>-th, or is a sync event of the object \<open>self\<close>;
  an edit event is not constrained. \<open>grows b self w w'\<close>: world \<open>w'\<close> extends \<open>w\<close> by
  such events only.
\<close>

definition same_shape :: "inst \<Rightarrow> inst \<Rightarrow> bool" where
  "same_shape m m' =
    (oid m' = oid m \<and> proto m' = proto m \<and> accessors m' = accessors m
     \<and> listeners m' = listeners m \<and> dropsync m' = dropsync m
     \<and> prefix (emitted m) (emitted m'))"

fun ev_ok :: "nat \<Rightarrow> nat option \<Rightarrow> pevent \<Rightarrow> bool" where
  "ev_ok b self (Sync ob i p v) = (b \<le> ob \<or> self = Some ob)"
| "ev_ok b self (RegistryAdd ob v) = (b \<le> ob)"
| "ev_ok b self (EditEvent nm mo) = True"

definition grows :: "nat \<Rightarrow> nat option \<Rightarrow> world \<Rightarrow> world \<Rightarrow> bool" where
  "grows b self w w' =
    (objects w \<le> objects w'
     \<and> take (length (bus w)) (bus w') = bus w
     \<and> list_all (ev_ok b self) (drop (length (bus w)) (bus w')))"

definition self_of :: "inst \<Rightarrow> nat option" where
  "self_of m = (if dropsync m then None else Some (oid m))"

fun is_sync_of :: "nat \<Rightarrow> pevent \<Rightarrow> bool" where
  "is_sync_of ob (Sync ob' i p v) = (ob' = ob)"
| "is_sync_of ob ev = False"

fun is_registration_of :: "nat \<Rightarrow> pevent \<Rightarrow> bool" where
  "is_registration_of ob (RegistryAdd ob' v) = (ob' = ob)"
| "is_registration_of ob ev = False"

text \<open>The sync events a model has emitted, and whether the registry was given it.\<close>

definition syncs_of :: "nat \<Rightarrow> world \<Rightarrow> pevent list" where
  "syncs_of ob w = filter (is_sync_of ob) (bus w)"

definition registered :: "nat \<Rightarrow> world \<Rightarrow> bool" where
  "registered ob w = list_ex (is_registration_of ob) (bus w)"

text \<open>
  What the two entry points guarantee at every depth: an assignment keeps the shape of
  its instance and adds only its own sync events (none while \<open>_dropsync\<close> is set) and
  events of newer objects; a construction adds only events of the objects it creates.
\<close>

definition asg_frame :: "assigner \<Rightarrow> bool" where
  "asg_frame asg =
    (\<forall>s name v x s'. asg s name v = Some (x, s') \<longrightarrow>
       same_shape (snd s) (snd s') \<and> grows (objects (fst s)) (self_of (snd s)) (fst s) (fst s'))"

definition ini_frame :: "initer \<Rightarrow> bool" where
  "ini_frame ini =
    (\<forall>w dn data e r w' errs. ini w dn data e = Some (r, w', errs) \<longrightarrow>
       grows (objects w) None w w'
       \<and> (\<forall>m. r = Inr m \<longrightarrow> objects w \<le> oid m \<and> oid m < objects w'))"

definition frame :: "state \<Rightarrow> state \<Rightarrow> bool" where
  "frame s s' =
    (same_shape (snd s) (snd s')
     \<and> grows (objects (fst s)) (self_of (snd s)) (fst s) (fst s'))"

definition built :: "state \<Rightarrow> state \<Rightarrow> bool" where
  "built s s' =
    (oid (snd s') = oid (snd s) \<and> proto (snd s') = proto (snd s)
     \<and> dropsync (snd s') = dropsync (snd s) \<and> objects (fst s') = objects (fst s)
     \<and> (\<forall>b. grows b None (fst s) (fst s')))"





text \<open>
  More readers of outcomes, and two instances of the test suite's \<open>Model\<close>, built one
  after the other with ids \<open>a\<close> and \<open>b\<close>.
\<close>

definition init_world :: "((exn + inst) \<times> world \<times> exn list) option \<Rightarrow> world" where
  "init_world r = (case r of Some (x, w, errs) \<Rightarrow> w | None \<Rightarrow> world0)"

definition init_errors :: "((exn + inst) \<times> world \<times> exn list) option \<Rightarrow> exn list" where
  "init_errors r = (case r of Some (x, w, errs) \<Rightarrow> errs | None \<Rightarrow> [])"

definition declared_type :: "inst \<Rightarrow> string \<Rightarrow> ty option" where
  "declared_type m name = (case map_of (accessors m) name of Some (d, en) \<Rightarrow> dtype d | None \<Rightarrow> None)"

definition declared_sync :: "inst \<Rightarrow> string \<Rightarrow> bool option" where
  "declared_sync m name = (case map_of (accessors m) name of Some (d, en) \<Rightarrow> Some (sync d) | None \<Rightarrow> None)"

definition model_a :: state where
  "model_a = init_state (init 3 test_defs world0 ''Model'' (VObj [(''id'', VStr ''a'')]) None)"

definition model_b :: state where
  "model_b = init_state (init 3 test_defs (fst model_a) ''Model'' (VObj [(''id'', VStr ''b'')]) None)"

section \<open>Properties: definition merge\<close>


lemma map_of_put: "map_of (put d k v) = (map_of d)(k \<mapsto> v)"
  by (induction d) auto

lemma map_of_merge_step:
  "map_of (merge_step acc kv) = [fst kv \<mapsto> snd kv] ++ map_of acc"
proof (cases "hasOwnKey (fst kv) acc")
  case True
  then have "map_of acc (fst kv) \<noteq> None"
    by (simp add: hasOwnKey_def map_of_eq_None_iff)
  then obtain v where "map_of acc (fst kv) = Some v"
    by blast
  then show ?thesis using True
    by (auto simp: merge_step_def map_add_def fun_eq_iff split: option.splits)
next
  case False
  then have "map_of acc (fst kv) = None"
    by (simp add: hasOwnKey_def map_of_eq_None_iff)
  then show ?thesis using False
    by (auto simp: merge_step_def map_of_put map_add_def fun_eq_iff split: option.splits)
qed

lemma map_of_foldl_merge_step:
  "map_of (foldl merge_step acc xs) = map_of xs ++ map_of acc"
proof (induction xs arbitrary: acc)
  case Nil
  show ?case by simp
next
  case (Cons kv xs)
  have "map_of (foldl merge_step acc (kv # xs)) = map_of xs ++ ([fst kv \<mapsto> snd kv] ++ map_of acc)"
    by (simp add: Cons.IH map_of_merge_step)
  also have "\<dots> = map_of (kv # xs) ++ map_of acc"
    by (cases kv) (auto simp: map_add_def fun_eq_iff split: option.splits)
  finally show ?case .
qed

lemma map_of_merge: "map_of (merge derived base) = map_of base ++ map_of derived"
  by (simp add: merge_def map_of_foldl_merge_step)

lemma entries_preCreate: "map_of (preCreate derived this) = entries this ++ entries derived"
  by (cases derived; cases this) (simp_all add: preCreate_def entries_def map_of_merge)

text \<open>
  C7. Deriving a definition merges each of \<open>properties\<close>, \<open>hasMany\<close> and \<open>hasOne\<close>
  so that looking a name up in the result gives the derived entry when the derived
  dictionary has one, and the entry of the base otherwise: a derived entry shadows the
  inherited one of the same name, every other inherited entry stays, and nothing else
  is there. The merge builds a new dictionary; its two inputs are values it cannot
  change.
\<close>

theorem definition_merge_shadows:
  "map_of (properties (extend this name ev props many one)) = map_of (properties this) ++ entries props
   \<and> map_of (hasMany (extend this name ev props many one)) = map_of (hasMany this) ++ entries many
   \<and> map_of (hasOne (extend this name ev props many one)) = map_of (hasOne this) ++ entries one"
  by (simp add: extend_def entries_preCreate) (simp add: entries_def)

section \<open>Properties: what a run adds to the bus\<close>

lemma grows_refl: "grows b self w w"
  by (simp add: grows_def)

lemma ev_ok_mono: "b \<le> b' \<Longrightarrow> ev_ok b' self ev \<Longrightarrow> ev_ok b self ev"
  by (cases ev) auto

lemma ev_ok_None: "ev_ok b None ev \<Longrightarrow> ev_ok b self ev"
  by (cases ev) auto

lemma grows_mono: "b \<le> b' \<Longrightarrow> grows b' self w w' \<Longrightarrow> grows b self w w'"
  by (auto simp: grows_def list_all_iff intro: ev_ok_mono)

lemma grows_None: "grows b None w w' \<Longrightarrow> grows b self w w'"
  by (auto simp: grows_def list_all_iff intro: ev_ok_None)

lemma grows_append:
  "grows b self w w' \<longleftrightarrow>
     objects w \<le> objects w' \<and> (\<exists>new. bus w' = bus w @ new \<and> list_all (ev_ok b self) new)"
proof
  assume g: "grows b self w w'"
  then have "bus w' = bus w @ drop (length (bus w)) (bus w')"
    by (metis append_take_drop_id grows_def)
  with g show "objects w \<le> objects w' \<and> (\<exists>new. bus w' = bus w @ new \<and> list_all (ev_ok b self) new)"
    unfolding grows_def by blast
next
  assume "objects w \<le> objects w' \<and> (\<exists>new. bus w' = bus w @ new \<and> list_all (ev_ok b self) new)"
  then show "grows b self w w'"
    by (auto simp: grows_def)
qed

lemma grows_trans:
  assumes "grows b self w w'" and "grows b self w' w''"
  shows "grows b self w w''"
  using assms unfolding grows_append by auto

lemma grows_emit_process:
  "ev_ok b self ev \<Longrightarrow> grows b self w (emit_process ev w)"
  by (simp add: grows_append emit_process_def)

lemma grows_syncs_of:
  assumes "grows b None w w'" and "ob < b"
  shows "syncs_of ob w' = syncs_of ob w"
proof -
  from assms(1) obtain new where n: "bus w' = bus w @ new" "list_all (ev_ok b None) new"
    unfolding grows_append by blast
  have "filter (is_sync_of ob) new = []"
  proof (rule filter_False, rule ballI)
    fix ev assume "ev \<in> set new"
    with n(2) have "ev_ok b None ev" by (simp add: list_all_iff)
    with assms(2) show "\<not> is_sync_of ob ev" by (cases ev) auto
  qed
  with n(1) show ?thesis by (simp add: syncs_of_def)
qed

lemma grows_registered:
  assumes "grows b self w w'" and "ob < b"
  shows "registered ob w' = registered ob w"
proof -
  from assms(1) obtain new where n: "bus w' = bus w @ new" "list_all (ev_ok b self) new"
    unfolding grows_append by blast
  have "\<not> list_ex (is_registration_of ob) new"
  proof
    assume "list_ex (is_registration_of ob) new"
    then obtain ev where ev: "ev \<in> set new" "is_registration_of ob ev"
      by (auto simp: list_ex_iff)
    with n(2) have ok: "ev_ok b self ev" by (simp add: list_all_iff)
    from ev(2) ok assms(2) show False by (cases ev) simp_all
  qed
  with n(1) show ?thesis by (auto simp: registered_def list_ex_iff)
qed

lemma same_shape_refl: "same_shape m m"
  by (simp add: same_shape_def)

lemma same_shape_trans: "same_shape m m' \<Longrightarrow> same_shape m' m'' \<Longrightarrow> same_shape m m''"
  unfolding same_shape_def by (auto intro: prefix_order.trans)

lemma same_shape_self: "same_shape m m' \<Longrightarrow> self_of m' = self_of m"
  by (simp add: same_shape_def self_of_def)

lemma frame_refl: "frame s s"
  by (simp add: frame_def same_shape_refl grows_refl)

lemma frame_trans:
  assumes "frame s s1" and "frame s1 s2"
  shows "frame s s2"
proof -
  from assms(1) have le: "objects (fst s) \<le> objects (fst s1)"
    by (simp add: frame_def grows_def)
  from assms(1) have self: "self_of (snd s1) = self_of (snd s)"
    by (simp add: frame_def same_shape_self)
  from assms(2) have "grows (objects (fst s1)) (self_of (snd s)) (fst s1) (fst s2)"
    by (simp add: frame_def self)
  with le have "grows (objects (fst s)) (self_of (snd s)) (fst s1) (fst s2)"
    by (rule grows_mono)
  with assms(1) have "grows (objects (fst s)) (self_of (snd s)) (fst s) (fst s2)"
    unfolding frame_def by (blast intro: grows_trans)
  moreover from assms have "same_shape (snd s) (snd s2)"
    unfolding frame_def by (blast intro: same_shape_trans)
  ultimately show ?thesis by (simp add: frame_def)
qed

lemma asg_frameD: "asg_frame asg \<Longrightarrow> asg s name v = Some (x, s') \<Longrightarrow> frame s s'"
  unfolding asg_frame_def frame_def by blast

lemma frame_store:
  "frame s (fst s, (snd s)\<lparr>data_store := ds', emitted := emitted (snd s) @ em'\<rparr>)"
  by (simp add: frame_def same_shape_def grows_refl self_of_def)

lemma frame_data: "frame s (fst s, (snd s)\<lparr>data_store := ds'\<rparr>)"
  by (simp add: frame_def same_shape_def grows_refl self_of_def)

lemma frame_plain: "frame s (fst s, (snd s)\<lparr>plain := p'\<rparr>)"
  by (simp add: frame_def same_shape_def grows_refl self_of_def)

lemma frame_world:
  "grows (objects (fst s)) (self_of (snd s)) (fst s) w' \<Longrightarrow> frame s (w', snd s)"
  by (simp add: frame_def same_shape_refl)

lemma emit_frame:
  assumes "asg_frame asg"
  shows "emit asg s obs = Some (x, s') \<Longrightarrow> frame s s'"
proof (induction obs arbitrary: s)
  case Nil
  then show ?case by (simp add: frame_refl)
next
  case (Cons ob obs)
  obtain target f where ob: "ob = Observer target f" by (cases ob)
  from Cons.prems ob obtain r s1 where
    a: "asg s target (f (read (snd s))) = Some (r, s1)"
    by (auto split: option.splits)
  have f1: "frame s s1" using assms a by (rule asg_frameD)
  show ?case
  proof (cases r)
    case None
    with Cons.prems ob a have "emit asg s1 obs = Some (x, s')" by simp
    then have "frame s1 s'" by (rule Cons.IH)
    with f1 show ?thesis by (rule frame_trans)
  next
    case (Some e)
    with Cons.prems ob a have "s' = s1" by simp
    with f1 show ?thesis by simp
  qed
qed

lemma set_prop_frame:
  assumes "asg_frame asg" and "set_prop asg s name d v = Some (x, s')"
  shows "frame s s'"
proof -
  let ?st = "(fst s, (snd s)\<lparr>data_store := put (data_store (snd s)) name v,
                             emitted := emitted (snd s) @ [(name, v)]\<rparr>)"
  show ?thesis
  proof (cases "case dtype d of None \<Rightarrow> None | Some t \<Rightarrow> enforce t v")
    case (Some e)
    with assms(2) have "s' = s" by (simp add: set_prop_def)
    then show ?thesis by (simp add: frame_refl)
  next
    case None
    with assms(2) obtain r s1 where
      e: "emit asg ?st (observers_of (snd s) name) = Some (r, s1)"
      by (auto simp: set_prop_def split: option.splits)
    have f1: "frame s s1"
      using frame_store emit_frame[OF assms(1) e] by (rule frame_trans)
    show ?thesis
    proof (cases "r = None \<and> \<not> (\<not> sync d \<or> dropsync (snd s1))")
      case False
      with assms(2) None e have "s' = s1"
        by (auto simp: set_prop_def split: option.splits)
      with f1 show ?thesis by simp
    next
      case True
      with assms(2) None e have s': "s' = (emit_process
             (Sync (oid (snd s1)) (read (snd s1) ''id'') name v) (fst s1), snd s1)"
        by (auto simp: set_prop_def split: option.splits)
      from True have "self_of (snd s1) = Some (oid (snd s1))" by (simp add: self_of_def)
      then have "frame s1 s'" unfolding s'
        by (intro frame_world grows_emit_process) simp
      with f1 show ?thesis by (rule frame_trans)
    qed
  qed
qed

lemma ini_frameD:
  "ini_frame ini \<Longrightarrow> ini w dn data e = Some (r, w', errs) \<Longrightarrow> grows (objects w) self w w'"
  unfolding ini_frame_def by (blast intro: grows_None)

lemma assign_body_frame:
  assumes a: "asg_frame asg" and i: "ini_frame ini"
  shows "asg_frame (assign_body asg ini)"
  unfolding asg_frame_def frame_def[symmetric]
proof (intro allI impI)
  fix s name v x s'
  assume r: "assign_body asg ini s name v = Some (x, s')"
  show "frame s s'"
  proof (cases "map_of (accessors (snd s)) name")
    case None
    with r show ?thesis by (auto simp: assign_body_def frame_plain)
  next
    case (Some de)
    obtain d en where de: "de = (d, en)" by (cases de)
    show ?thesis
    proof (cases "the_set d")
      case (Transform f)
      with r Some de have "set_prop asg s name d (f v) = Some (x, s')"
        by (simp add: assign_body_def)
      with a show ?thesis by (rule set_prop_frame)
    next
      case EditSetter
      let ?s1 = "if truthy v
                then (emit_process
                        (EditEvent (EDIT_EVENT (proto (snd s))) (Some (oid (snd s)))) (fst s),
                      snd s)
                else s"
      from r Some de EditSetter have "set_prop asg ?s1 name d v = Some (x, s')"
        by (simp add: assign_body_def)
      with a have "frame ?s1 s'" by (rule set_prop_frame)
      moreover have "frame s ?s1"
        by (auto simp: frame_refl intro!: frame_world grows_emit_process)
      ultimately show ?thesis by (rule frame_trans[rotated])
    next
      case (HasOneSetter relation)
      show ?thesis
      proof (cases "typeOf (TModel relation) v")
        case True
        with r Some de HasOneSetter have "set_prop asg s name d v = Some (x, s')"
          by (simp add: assign_body_def)
        with a show ?thesis by (rule set_prop_frame)
      next
        case False
        with r Some de HasOneSetter obtain c w errs where
          c: "ini (fst s) relation v None = Some (c, w, errs)"
          by (auto simp: assign_body_def split: option.splits)
        from i c have "grows (objects (fst s)) (self_of (snd s)) (fst s) w"
          by (rule ini_frameD)
        then have f1: "frame s (w, snd s)" by (rule frame_world)
        show ?thesis
        proof (cases c)
          case (Inl e)
          with r Some de HasOneSetter False c have "s' = (w, snd s)"
            by (simp add: assign_body_def)
          with f1 show ?thesis by simp
        next
          case (Inr ch)
          with r Some de HasOneSetter False c
          have "set_prop asg (w, snd s) name d (to_val ch) = Some (x, s')"
            by (simp add: assign_body_def)
          with a have "frame (w, snd s) s'" by (rule set_prop_frame)
          with f1 show ?thesis by (rule frame_trans)
        qed
      qed
    qed
  qed
qed

lemma built_refl: "built s s"
  by (simp add: built_def grows_refl)

lemma built_trans: "built s s1 \<Longrightarrow> built s1 s2 \<Longrightarrow> built s s2"
  unfolding built_def by (auto intro: grows_trans)

lemma built_foldl:
  assumes "\<And>s x. built s (f s x)"
  shows "built s (foldl f s xs)"
proof (induction xs arbitrary: s)
  case Nil
  show ?case by (simp add: built_refl)
next
  case (Cons x xs)
  have "built s (f s x)" by (rule assms)
  moreover have "built (f s x) (foldl f (f s x) xs)" by (rule Cons.IH)
  ultimately show ?case by (simp add: built_trans)
qed

lemma seed_built: "built s (seed s name d)"
proof (cases "the_set d")
  case (Transform f)
  then show ?thesis by (simp add: seed_def Let_def built_def grows_refl)
next
  case EditSetter
  then show ?thesis
    by (simp add: seed_def Let_def built_def grows_refl grows_emit_process)
      (simp add: emit_process_def)
next
  case (HasOneSetter r)
  then show ?thesis by (simp add: seed_def Let_def built_def grows_refl)
qed

lemma createProperty_built: "built s (createProperty s name d en)"
proof -
  let ?d = "d\<lparr>getf := Some (the_get d), setf := Some (the_set d)\<rparr>"
  let ?s1 = "(fst s, (snd s)\<lparr>accessors := accessors (snd s) @ [(name, ?d, en)]\<rparr>)"
  let ?s2 = "seed ?s1 name ?d"
  have "built s ?s1" by (simp add: built_def grows_refl)
  moreover have "built ?s1 ?s2" by (rule seed_built)
  moreover have "built ?s2 (fst ?s2, (snd ?s2)\<lparr>listeners := listeners (snd ?s2) @ on ?d\<rparr>)"
    by (simp add: built_def grows_refl)
  ultimately have "built s (fst ?s2, (snd ?s2)\<lparr>listeners := listeners (snd ?s2) @ on ?d\<rparr>)"
    by (blast intro: built_trans)
  then show ?thesis by (simp add: createProperty_def Let_def)
qed

lemma initHasMany_built: "built s (initHasMany s)"
  unfolding initHasMany_def
  by (rule built_foldl) (auto simp: built_refl createProperty_built split: prod.splits)

lemma initHasOne_built: "built s (initHasOne s)"
  unfolding initHasOne_def
  by (rule built_foldl) (auto simp: built_refl createProperty_built split: prod.splits)

lemma initProperties_built:
  "built (fst s, (snd s)\<lparr>data_store := [], dropsync := False\<rparr>) (initProperties s)"
  unfolding initProperties_def
  by (rule built_foldl) (auto simp: built_refl createProperty_built split: prod.splits)

lemma materialise_built:
  "built (fst (create D w), (snd (create D w))\<lparr>data_store := [], dropsync := False\<rparr>)
     (initHasOne (initHasMany (initProperties (create D w))))"
  by (blast intro: built_trans initProperties_built initHasMany_built initHasOne_built)

lemma updateEach_frame:
  assumes "asg_frame asg"
  shows "updateEach asg s dat errs names = Some (s', errs') \<Longrightarrow> frame s s'"
proof (induction names arbitrary: s errs)
  case Nil
  then show ?case by (simp add: frame_refl)
next
  case (Cons name names)
  show ?case
  proof (cases "hasOwnKey name dat")
    case False
    with Cons.prems have "updateEach asg s dat errs names = Some (s', errs')" by simp
    then show ?thesis by (rule Cons.IH)
  next
    case True
    with Cons.prems obtain r s1 where a: "asg s name (lookup dat name) = Some (r, s1)"
      by (auto split: option.splits)
    have f1: "frame s s1" using assms a by (rule asg_frameD)
    from True Cons.prems a obtain errs1 where
      "updateEach asg s1 dat errs1 names = Some (s', errs')"
      by (cases r) auto
    then have "frame s1 s'" by (rule Cons.IH)
    with f1 show ?thesis by (rule frame_trans)
  qed
qed

lemma updateProperties_frame:
  assumes "asg_frame asg" and "updateProperties asg s dat errs = Some (x, s', errs')"
  shows "frame s s'"
proof -
  from assms(2) obtain r s1 where a: "asg s ''id'' (lookup dat ''id'') = Some (r, s1)"
    by (auto simp: updateProperties_def split: option.splits)
  have f1: "frame s s1" using assms(1) a by (rule asg_frameD)
  show ?thesis
  proof (cases r)
    case (Some e)
    with assms(2) a have "s' = s1" by (simp add: updateProperties_def)
    with f1 show ?thesis by simp
  next
    case None
    with assms(2) a have
      "updateEach asg s1 dat errs (enumerable_keys (snd s1)) = Some (s', errs')"
      by (auto simp: updateProperties_def split: option.splits)
    with assms(1) have "frame s1 s'" by (rule updateEach_frame)
    with f1 show ?thesis by (rule frame_trans)
  qed
qed

lemma addEach_frame:
  assumes i: "ini_frame ini"
  shows "addEach ini s name relation xs errs = Some (x, s', errs') \<Longrightarrow> frame s s'"
proof (induction xs arbitrary: s errs)
  case Nil
  then show ?case by (simp add: frame_refl)
next
  case (Cons y ys)
  show ?case
  proof (cases "read (snd s) name = VUndef \<or> read (snd s) name = VNull")
    case True
    with Cons.prems have "s' = s" by auto
    then show ?thesis by (simp add: frame_refl)
  next
    case False
    with Cons.prems obtain c w errs1 where
      c: "ini (fst s) relation y (Some errs) = Some (c, w, errs1)"
      by (auto split: option.splits)
    from i c have "grows (objects (fst s)) (self_of (snd s)) (fst s) w"
      by (rule ini_frameD)
    then have f1: "frame s (w, snd s)" by (rule frame_world)
    show ?thesis
    proof (cases c)
      case (Inl e)
      with Cons.prems False c have "s' = (w, snd s)" by auto
      with f1 show ?thesis by simp
    next
      case (Inr ch)
      show ?thesis
      proof (cases "\<exists>t i its. read (snd s) name = VColl t i its")
        case False
        with Cons.prems \<open>\<not> (read (snd s) name = VUndef \<or> read (snd s) name = VNull)\<close> c Inr
        have "s' = (w, snd s)" by (auto split: val.splits)
        with f1 show ?thesis by simp
      next
        case True
        then obtain t i its where rd: "read (snd s) name = VColl t i its" by blast
        let ?s1 = "(w, (snd s)\<lparr>data_store :=
                      put (data_store (snd s)) name (VColl t i (its @ [to_val ch]))\<rparr>)"
        from Cons.prems c Inr rd
        have "addEach ini ?s1 name relation ys errs1 = Some (x, s', errs')" by simp
        then have "frame ?s1 s'" by (rule Cons.IH)
        moreover have "frame (w, snd s) ?s1" using frame_data[of "(w, snd s)"] by simp
        ultimately show ?thesis using f1 by (blast intro: frame_trans)
      qed
    qed
  qed
qed

lemma createHasMany_frame:
  assumes i: "ini_frame ini"
  shows "createHasMany ini s dat errs rels = Some (x, s', errs') \<Longrightarrow> frame s s'"
proof (induction rels arbitrary: s errs)
  case Nil
  then show ?case by (simp add: frame_refl)
next
  case (Cons nr rels)
  obtain name relation where nr: "nr = (name, relation)" by (cases nr)
  show ?case
  proof (cases "hasOwnKey name dat")
    case False
    with Cons.prems nr have "createHasMany ini s dat errs rels = Some (x, s', errs')" by simp
    then show ?thesis by (rule Cons.IH)
  next
    case True
    with Cons.prems nr obtain r s1 errs1 where
      a: "addEach ini s name relation (items_of (lookup dat name)) errs = Some (r, s1, errs1)"
      by (auto split: option.splits)
    have f1: "frame s s1" using i a by (rule addEach_frame)
    show ?thesis
    proof (cases r)
      case (Some e)
      with Cons.prems nr True a have "s' = s1" by simp
      with f1 show ?thesis by simp
    next
      case None
      with Cons.prems nr True a
      have "createHasMany ini s1 dat errs1 rels = Some (x, s', errs')" by simp
      then have "frame s1 s'" by (rule Cons.IH)
      with f1 show ?thesis by (rule frame_trans)
    qed
  qed
qed

lemma createHasOne_frame:
  assumes a: "asg_frame asg" and i: "ini_frame ini"
  shows "createHasOne asg ini s dat errs rels = Some (x, s', errs') \<Longrightarrow> frame s s'"
proof (induction rels arbitrary: s errs)
  case Nil
  then show ?case by (simp add: frame_refl)
next
  case (Cons nr rels)
  obtain name relation where nr: "nr = (name, relation)" by (cases nr)
  show ?case
  proof (cases "hasOwnKey name dat")
    case False
    with Cons.prems nr have "createHasOne asg ini s dat errs rels = Some (x, s', errs')"
      by simp
    then show ?thesis by (rule Cons.IH)
  next
    case True
    with Cons.prems nr obtain c w errs1 where
      c: "ini (fst s) relation (lookup dat name) (Some errs) = Some (c, w, errs1)"
      by (auto split: option.splits)
    from i c have "grows (objects (fst s)) (self_of (snd s)) (fst s) w"
      by (rule ini_frameD)
    then have f1: "frame s (w, snd s)" by (rule frame_world)
    show ?thesis
    proof (cases c)
      case (Inl e)
      with Cons.prems nr True c have "s' = (w, snd s)" by simp
      with f1 show ?thesis by simp
    next
      case (Inr ch)
      with Cons.prems nr True c obtain r s1 where
        b: "asg (w, snd s) name (to_val ch) = Some (r, s1)"
        by (auto split: option.splits)
      have f2: "frame s s1" using f1 asg_frameD[OF a b] by (rule frame_trans)
      show ?thesis
      proof (cases r)
        case (Some e)
        with Cons.prems nr True c Inr b have "s' = s1" by simp
        with f2 show ?thesis by simp
      next
        case None
        with Cons.prems nr True c Inr b
        have "createHasOne asg ini s1 dat errs1 rels = Some (x, s', errs')" by simp
        then have "frame s1 s'" by (rule Cons.IH)
        with f2 show ?thesis by (rule frame_trans)
      qed
    qed
  qed
qed

lemma with_id_world:
  "bus (fst (with_id w data)) = bus w \<and> objects (fst (with_id w data)) = objects w"
  by (simp add: with_id_def Let_def)

lemma materialise_facts:
  "oid (snd (materialise D w)) = objects w
   \<and> dropsync (snd (materialise D w)) = False
   \<and> proto (snd (materialise D w)) = D
   \<and> objects (fst (materialise D w)) = Suc (objects w)
   \<and> grows b None w (fst (materialise D w))"
proof -
  let ?c = "create D w"
  let ?r = "(fst ?c, (snd ?c)\<lparr>data_store := [], dropsync := False\<rparr>)"
  have b: "built ?r (materialise D w)"
    unfolding materialise_def by (rule materialise_built)
  have "grows b None w (fst ?r)"
    by (simp add: create_def grows_def)
  moreover from b have "grows b None (fst ?r) (fst (materialise D w))"
    by (simp add: built_def)
  ultimately have "grows b None w (fst (materialise D w))"
    by (rule grows_trans)
  with b show ?thesis
    by (simp add: built_def create_def)
qed

lemma init_body_run:
  assumes r: "init_body ds asg ini w dn data e = Some (r, w', errs)"
    and D: "map_of ds dn = Some D"
    and a: "asg_frame asg" and i: "ini_frame ini"
  shows "\<exists>sP. frame (materialise D (fst (with_id w data))) sP
     \<and> ((\<exists>x. r = Inl x \<and> w' = fst sP)
        \<or> (r = Inr (snd sP) \<and> (e = None \<longrightarrow> errs = [])
            \<and> w' = emit_process (RegistryAdd (oid (snd sP)) (to_val (snd sP))) (fst sP)))"
proof -
  obtain w1 dat where wi: "with_id w data = (w1, dat)" by (cases "with_id w data")
  let ?e = "case e of None \<Rightarrow> [] | Some es \<Rightarrow> es"
  let ?s0 = "materialise D w1"
  from r D wi obtain x1 s1 errs1 where
    u: "updateProperties asg ?s0 dat ?e = Some (x1, s1, errs1)"
    by (auto simp: init_body_def materialise_def Let_def split: option.splits)
  have f1: "frame ?s0 s1" using a u by (rule updateProperties_frame)
  show ?thesis
  proof (cases x1)
    case (Some x)
    with r D wi u have "r = Inl x \<and> w' = fst s1"
      by (simp add: init_body_def materialise_def Let_def)
    with f1 wi show ?thesis by (intro exI[of _ s1]) auto
  next
    case None
    with r D wi u obtain x2 s2 errs2 where
      m: "createHasMany ini s1 dat errs1 (hasMany (proto (snd s1))) = Some (x2, s2, errs2)"
      by (auto simp: init_body_def materialise_def Let_def split: option.splits)
    have f2: "frame ?s0 s2" using f1 createHasMany_frame[OF i m] by (rule frame_trans)
    show ?thesis
    proof (cases x2)
      case (Some x)
      with r D wi u None m have "r = Inl x \<and> w' = fst s2"
        by (simp add: init_body_def materialise_def Let_def)
      with f2 wi show ?thesis by (intro exI[of _ s2]) auto
    next
      case None2: None
      with r D wi u None m obtain x3 s3 errs3 where
        h: "createHasOne asg ini s2 dat errs2 (hasOne (proto (snd s2))) = Some (x3, s3, errs3)"
        by (auto simp: init_body_def materialise_def Let_def split: option.splits)
      have f3: "frame ?s0 s3" using f2 createHasOne_frame[OF a i h] by (rule frame_trans)
      show ?thesis
      proof (cases x3)
        case (Some x)
        with r D wi u None m None2 h have "r = Inl x \<and> w' = fst s3"
          by (simp add: init_body_def materialise_def Let_def)
        with f3 wi show ?thesis by (intro exI[of _ s3]) auto
      next
        case None3: None
        show ?thesis
        proof (cases "e = None \<and> errs3 \<noteq> []")
          case True
          with r D wi u None m None2 h None3
          have "r = Inl (Aggregate errs3) \<and> w' = fst s3"
            by (auto simp: init_body_def materialise_def Let_def)
          with f3 wi show ?thesis by (intro exI[of _ s3]) auto
        next
          case False
          with r D wi u None m None2 h None3
          have "r = Inr (snd s3) \<and> errs = errs3
                \<and> w' = emit_process (RegistryAdd (oid (snd s3)) (to_val (snd s3))) (fst s3)"
            by (auto simp: init_body_def materialise_def Let_def)
          with f3 wi False show ?thesis by (intro exI[of _ s3]) auto
        qed
      qed
    qed
  qed
qed

lemma grows_self_to_None: "grows (Suc b) (Some b) w w' \<Longrightarrow> grows b None w w'"
proof -
  have "ev_ok b None ev" if "ev_ok (Suc b) (Some b) ev" for ev
    using that by (cases ev) auto
  then show "grows (Suc b) (Some b) w w' \<Longrightarrow> grows b None w w'"
    by (auto simp: grows_def list_all_iff)
qed

lemma init_body_frame:
  assumes a: "asg_frame asg" and i: "ini_frame ini"
  shows "ini_frame (init_body ds asg ini)"
  unfolding ini_frame_def
proof (intro allI impI)
  fix w dn data e r w' errs
  assume r: "init_body ds asg ini w dn data e = Some (r, w', errs)"
  show "grows (objects w) None w w' \<and> (\<forall>m. r = Inr m \<longrightarrow> objects w \<le> oid m \<and> oid m < objects w')"
  proof (cases "map_of ds dn")
    case None
    with r have "r = Inl JsTypeError \<and> w' = w" by (simp add: init_body_def Let_def)
    then show ?thesis by (simp add: grows_refl)
  next
    case (Some D)
    let ?w1 = "fst (with_id w data)"
    let ?s0 = "materialise D ?w1"
    from init_body_run[OF r Some a i] obtain sP where
      f: "frame ?s0 sP" and
      c: "(\<exists>x. r = Inl x \<and> w' = fst sP)
        \<or> (r = Inr (snd sP)
            \<and> w' = emit_process (RegistryAdd (oid (snd sP)) (to_val (snd sP))) (fst sP))"
      by blast
    have mf: "oid (snd ?s0) = objects w" "dropsync (snd ?s0) = False"
      "objects (fst ?s0) = Suc (objects w)" "grows (objects w) None ?w1 (fst ?s0)"
      using materialise_facts[of D ?w1 "objects w"] by (simp_all add: with_id_world)
    have g0: "grows (objects w) None w ?w1"
      by (simp add: grows_def with_id_world)
    from f mf have "grows (Suc (objects w)) (Some (objects w)) (fst ?s0) (fst sP)"
      by (simp add: frame_def self_of_def)
    then have g2: "grows (objects w) None (fst ?s0) (fst sP)"
      by (rule grows_self_to_None)
    have gP: "grows (objects w) None w (fst sP)"
      using g0 mf(4) g2 by (blast intro: grows_trans)
    from f mf have oP: "oid (snd sP) = objects w"
      by (simp add: frame_def same_shape_def)
    from g2 mf(3) have lt: "objects w < objects (fst sP)"
      by (simp add: grows_def)
    from c show ?thesis
    proof
      assume "\<exists>x. r = Inl x \<and> w' = fst sP"
      with gP show ?thesis by auto
    next
      assume ok: "r = Inr (snd sP)
            \<and> w' = emit_process (RegistryAdd (oid (snd sP)) (to_val (snd sP))) (fst sP)"
      have "grows (objects w) None (fst sP) w'"
        using ok oP by (simp add: grows_emit_process)
      with gP have "grows (objects w) None w w'" by (rule grows_trans)
      moreover from ok lt have "objects w < objects w'" by (simp add: emit_process_def)
      ultimately show ?thesis using ok oP by simp
    qed
  qed
qed

lemma assign_Suc: "assign (Suc n) ds = assign_body (assign n ds) (init n ds)"
  by (simp add: assign_def init_def)

lemma init_Suc: "init (Suc n) ds = init_body ds (assign n ds) (init n ds)"
  by (simp add: assign_def init_def)

lemma assign_0: "assign 0 ds s name v = None"
  by (simp add: assign_def)

lemma init_0: "init 0 ds w dn data e = None"
  by (simp add: init_def)

lemma frames: "asg_frame (assign n ds) \<and> ini_frame (init n ds)"
proof (induction n)
  case 0
  show ?case by (simp add: asg_frame_def ini_frame_def assign_0 init_0)
next
  case (Suc n)
  then show ?case
    by (simp add: assign_Suc init_Suc assign_body_frame init_body_frame)
qed



lemma init_grows:
  "init n ds w dn data e = Some (r, w', errs) \<Longrightarrow> grows (objects w) self w w'"
  using frames ini_frameD by blast

lemma thrown_state: "thrown r = Some x \<Longrightarrow> r = Some (x, state_of r)"
  by (cases r) (auto simp: thrown_def state_of_def)

lemma init_thrown_result:
  "init_thrown r = Some x \<Longrightarrow> \<exists>y w errs. r = Some (y, w, errs) \<and> init_world r = w
      \<and> init_errors r = errs \<and> (case x of None \<Rightarrow> (\<exists>m. y = Inr m) | Some e \<Rightarrow> y = Inl e)"
  by (cases r) (auto simp: init_thrown_def init_world_def init_errors_def split: sum.splits)

lemma lookup_put: "lookup (put d k v) k = v"
  by (simp add: lookup_def map_of_put)


lemma syncs_of_emit_process:
  "syncs_of ob (emit_process ev w) = syncs_of ob w @ (if is_sync_of ob ev then [ev] else [])"
  by (simp add: syncs_of_def emit_process_def)

lemma assign_cases:
  assumes acc: "map_of (accessors (snd s)) name = Some (d, en)"
    and run: "assign n ds s name v = Some (x, s')"
  obtains (set) k w v' where "n = Suc k"
      "set_prop (assign k ds) (w, snd s) name d v' = Some (x, s')"
      "grows (objects (fst s)) None (fst s) w"
      "\<forall>f. the_set d = Transform f \<longrightarrow> v' = f v \<and> w = fst s"
  | (child_failed) k w e where "n = Suc k" "x = Some e" "s' = (w, snd s)"
      "grows (objects (fst s)) None (fst s) w"
proof -
  obtain k where n: "n = Suc k" using run by (cases n) (auto simp: assign_0)
  with run acc have b: "assign_body (assign k ds) (init k ds) s name v = Some (x, s')"
    by (simp add: assign_Suc)
  show ?thesis
  proof (cases "the_set d")
    case (Transform f)
    with b acc have "set_prop (assign k ds) (fst s, snd s) name d (f v) = Some (x, s')"
      by (simp add: assign_body_def)
    then show ?thesis using n Transform by (intro set[of k "fst s" "f v"]) (simp_all add: grows_refl)
  next
    case EditSetter
    let ?w = "if truthy v
              then emit_process (EditEvent (EDIT_EVENT (proto (snd s))) (Some (oid (snd s)))) (fst s)
              else fst s"
    from b acc EditSetter have "set_prop (assign k ds) (?w, snd s) name d v = Some (x, s')"
      by (auto simp: assign_body_def split: if_splits)
    moreover have "grows (objects (fst s)) None (fst s) ?w"
      by (simp add: grows_refl grows_emit_process)
    ultimately show ?thesis using n EditSetter by (intro set[of k ?w v]) simp_all
  next
    case (HasOneSetter r)
    show ?thesis
    proof (cases "typeOf (TModel r) v")
      case True
      with b acc HasOneSetter
      have "set_prop (assign k ds) (fst s, snd s) name d v = Some (x, s')"
        by (simp add: assign_body_def)
      then show ?thesis using n HasOneSetter
        by (intro set[of k "fst s" v]) (simp_all add: grows_refl)
    next
      case False
      with b acc HasOneSetter obtain c w errs where
        c: "init k ds (fst s) r v None = Some (c, w, errs)"
        by (auto simp: assign_body_def split: option.splits)
      then have g: "grows (objects (fst s)) None (fst s) w" by (rule init_grows)
      show ?thesis
      proof (cases c)
        case (Inl e)
        with b acc HasOneSetter False c have "x = Some e" "s' = (w, snd s)"
          by (simp_all add: assign_body_def)
        then show ?thesis using n g by (intro child_failed[of k e w]) simp_all
      next
        case (Inr ch)
        with b acc HasOneSetter False c
        have "set_prop (assign k ds) (w, snd s) name d (to_val ch) = Some (x, s')"
          by (simp add: assign_body_def)
        then show ?thesis using n g HasOneSetter
          by (intro set[of k w "to_val ch"]) simp_all
      qed
    qed
  qed
qed


lemma set_prop_no_observers:
  assumes "observers_of (snd s) name = []"
    and "set_prop asg s name d v = Some (None, s')"
  shows "snd s' = (snd s)\<lparr>data_store := put (data_store (snd s)) name v,
                         emitted := emitted (snd s) @ [(name, v)]\<rparr>
     \<and> fst s' = (if sync d \<and> \<not> dropsync (snd s)
                 then emit_process (Sync (oid (snd s)) (read (snd s') ''id'') name v) (fst s)
                 else fst s)"
  using assms by (auto simp: set_prop_def split: option.splits if_splits)

lemma assign_violation:
  assumes "map_of (accessors (snd s)) name = Some (d, en)"
    and "dtype d = Some t" and "the_set d = Transform f" and "\<not> typeOf t (f v)"
  shows "assign (Suc n) ds s name v = Some (Some (TypeViolation t (f v)), s)"
  using assms by (simp add: assign_Suc assign_body_def set_prop_def enforce_def)

section \<open>Properties: construction\<close>



















text \<open>
  C5, as the code has it. For a construction call without an error sink, in a world
  where the object about to be created is not registered: after the call that object
  is registered exactly when the call returned an instance, and then the error list
  is empty. A call that throws leaves its own instance unregistered.
\<close>

theorem registered_only_when_init_returns:
  assumes "init n ds w dn data None = Some (r, w', errs)"
    and "\<not> registered (objects w) w"
  shows "(registered (objects w) w' \<longleftrightarrow> (\<exists>m. r = Inr m))
     \<and> (\<forall>m. r = Inr m \<longrightarrow> oid m = objects w \<and> errs = [])"
proof (cases n)
  case 0
  with assms(1) show ?thesis by (simp add: init_0)
next
  case (Suc k)
  with assms(1) have r: "init_body ds (assign k ds) (init k ds) w dn data None = Some (r, w', errs)"
    by (simp add: init_Suc)
  show ?thesis
  proof (cases "map_of ds dn")
    case None
    with r have "r = Inl JsTypeError \<and> w' = w"
      by (simp add: init_body_def Let_def)
    with assms(2) show ?thesis by auto
  next
    case (Some D)
    let ?w1 = "fst (with_id w data)"
    let ?s0 = "materialise D ?w1"
    from frames[of k ds] have a: "asg_frame (assign k ds)" and i: "ini_frame (init k ds)"
      by simp_all
    from init_body_run[OF r Some a i] obtain sP where
      f: "frame ?s0 sP" and
      c: "(\<exists>x. r = Inl x \<and> w' = fst sP)
        \<or> (r = Inr (snd sP) \<and> errs = []
            \<and> w' = emit_process (RegistryAdd (oid (snd sP)) (to_val (snd sP))) (fst sP))"
      by auto
    have mf: "oid (snd ?s0) = objects w" "dropsync (snd ?s0) = False"
      "objects (fst ?s0) = Suc (objects w)" "grows (Suc (objects w)) None ?w1 (fst ?s0)"
      using materialise_facts[of D ?w1 "Suc (objects w)"] by (simp_all add: with_id_world)
    have "registered (objects w) ?w1 = registered (objects w) w"
      by (simp add: registered_def with_id_world)
    moreover have "registered (objects w) (fst ?s0) = registered (objects w) ?w1"
      using mf(4) by (rule grows_registered) simp
    moreover from f mf have "grows (Suc (objects w)) (Some (objects w)) (fst ?s0) (fst sP)"
      by (simp add: frame_def self_of_def)
    then have "registered (objects w) (fst sP) = registered (objects w) (fst ?s0)"
      by (rule grows_registered) simp
    ultimately have nP: "\<not> registered (objects w) (fst sP)"
      using assms(2) by simp
    from f mf have oP: "oid (snd sP) = objects w"
      by (simp add: frame_def same_shape_def)
    from c show ?thesis
    proof
      assume "\<exists>x. r = Inl x \<and> w' = fst sP"
      with nP show ?thesis by auto
    next
      assume ok: "r = Inr (snd sP) \<and> errs = []
            \<and> w' = emit_process (RegistryAdd (oid (snd sP)) (to_val (snd sP))) (fst sP)"
      then have "registered (objects w) w'"
        using oP by (simp add: registered_def emit_process_def)
      with ok oP show ?thesis by auto
    qed
  qed
qed

theorem registered_only_when_init_returns_witness:
  "init_thrown (init 3 test_defs world0 ''Model''
       (VObj [(''id'', VStr ''a''), (''stringTest'', VNum 10)]) None)
     = Some (Some (Aggregate [TypeViolation TString (VNum 10)]))
   \<and> \<not> registered 0 (init_world (init 3 test_defs world0 ''Model''
       (VObj [(''id'', VStr ''a''), (''stringTest'', VNum 10)]) None))"
proof -
  let ?r = "init 3 test_defs world0 ''Model''
       (VObj [(''id'', VStr ''a''), (''stringTest'', VNum 10)]) None"
  have t: "init_thrown ?r = Some (Some (Aggregate [TypeViolation TString (VNum 10)]))"
    by code_simp
  from init_thrown_result[OF t] obtain w errs where
    run: "?r = Some (Inl (Aggregate [TypeViolation TString (VNum 10)]), w, errs)"
    and w: "init_world ?r = w"
    by auto
  have fresh: "\<not> registered (objects world0) world0"
    by (simp add: registered_def world0_def)
  from registered_only_when_init_returns[OF run fresh] w t
  show ?thesis by (simp add: world0_def)
qed

text \<open>
  C5 as stated fails: a child is registered when its own \<open>init\<close> returns, and nothing
  takes it back. The parent below fails on \<open>stringTest\<close>; its child \<open>si\<close> stays
  registered.
\<close>

theorem child_stays_registered_when_parent_fails:
  "init_thrown (init 4 test_defs world0 ''Model''
      (VObj [(''id'', VStr ''a''), (''stringTest'', VNum 10),
             (''children'', VArr [VObj [(''name'', VStr ''si'')]])]) None)
     = Some (Some (Aggregate [TypeViolation TString (VNum 10)]))
   \<and> registered 1 (init_world (init 4 test_defs world0 ''Model''
      (VObj [(''id'', VStr ''a''), (''stringTest'', VNum 10),
             (''children'', VArr [VObj [(''name'', VStr ''si'')]])]) None))
   \<and> bus (init_world (init 4 test_defs world0 ''Model''
      (VObj [(''id'', VStr ''a''), (''stringTest'', VNum 10),
             (''children'', VArr [VObj [(''name'', VStr ''si'')]])]) None))
     = [RegistryAdd 1 (VInst [''ChildModel'', ''Base'']
          [(''edit'', VBool False), (''locked'', VBool False), (''id'', VStr ''uuid-''),
           (''name'', VStr ''si'')])]"
  by code_simp

text \<open>
  C8. initHasMany runs before updateProperties has assigned the id, so
  \<open>model.id + "-" + name\<close> reads an undefined id: the collections of two instances
  with ids \<open>a\<close> and \<open>b\<close> both have the id \<open>undefined-children\<close>.
\<close>

theorem has_many_collection_id_ignores_instance_id:
  "read (snd model_a) ''id'' = VStr ''a'' \<and> read (snd model_b) ''id'' = VStr ''b''
   \<and> read (snd model_a) ''children'' = VColl ''ChildModel'' ''undefined-children'' []
   \<and> read (snd model_b) ''children'' = VColl ''ChildModel'' ''undefined-children'' []"
  unfolding model_a_def model_b_def by code_simp

section \<open>Properties: the write pipeline\<close>

text \<open>
  C2, as the code has it. For an accessor with a declared type and a pure setter:
  assigning a value whose transformed value is defined and does not satisfy the type
  throws the type violation and returns the state it started from, so nothing is
  stored and no local or sync event is emitted.
\<close>

theorem type_violation_is_atomic:
  assumes "map_of (accessors (snd s)) name = Some (d, en)"
    and "dtype d = Some t" and "the_set d = Transform f"
    and "f v \<noteq> VUndef" and "\<not> typeOf t (f v)"
  shows "assign (Suc n) ds s name v = Some (Some (TypeViolation t (f v)), s)"
  using assms by (simp add: assign_violation)

theorem type_violation_is_atomic_witness:
  "assign 3 test_defs model_a ''stringTest'' (VNum 10)
     = Some (Some (TypeViolation TString (VNum 10)), model_a)"
proof -
  have "case map_of (accessors (snd model_a)) ''stringTest'' of
          Some (d, en) \<Rightarrow> dtype d = Some TString
            \<and> (case the_set d of Transform f \<Rightarrow> f (VNum 10) = VNum 10 | _ \<Rightarrow> False)
        | None \<Rightarrow> False"
    unfolding model_a_def by code_simp
  then obtain d en f where acc: "map_of (accessors (snd model_a)) ''stringTest'' = Some (d, en)"
    and ty: "dtype d = Some TString" and st: "the_set d = Transform f"
    and fv: "f (VNum 10) = VNum 10"
    by (auto split: option.splits setter.splits)
  from fv have "f (VNum 10) \<noteq> VUndef" "\<not> typeOf TString (f (VNum 10))" by simp_all
  from type_violation_is_atomic[OF acc ty st this, of 2 test_defs] fv
  show ?thesis by (simp add: numeral_3_eq_3)
qed

text \<open>
  C2 as stated fails for a has-one accessor: raw data does not satisfy the declared
  child type, and the assignment succeeds, storing the child built from it.
\<close>

theorem has_one_takes_raw_data:
  "declared_type (snd model_a) ''afterInit'' = Some (TModel ''ChildModel'')
   \<and> \<not> typeOf (TModel ''ChildModel'') (VObj [(''name'', VStr ''si-after'')])
   \<and> thrown (assign 3 test_defs model_a ''afterInit'' (VObj [(''name'', VStr ''si-after'')]))
       = Some None
   \<and> lookup (data_store (snd (state_of
         (assign 3 test_defs model_a ''afterInit'' (VObj [(''name'', VStr ''si-after'')])))))
       ''afterInit''
       = VInst [''ChildModel'', ''Base'']
           [(''edit'', VBool False), (''locked'', VBool False), (''id'', VStr ''uuid-''),
            (''name'', VStr ''si-after'')]"
  unfolding model_a_def by code_simp

text \<open>
  C6. \<open>set\<close> calls \<open>enforce\<close> whenever a type is declared, also for undefined:
  \<open>model.stringTest = undefined\<close> throws a type violation.
\<close>

theorem undefined_is_enforced:
  "declared_type (snd model_a) ''stringTest'' = Some TString
   \<and> thrown (assign 3 test_defs model_a ''stringTest'' VUndef)
       = Some (Some (TypeViolation TString VUndef))"
  unfolding model_a_def by code_simp

text \<open>
  C3, as the code has it. For an accessor that no observer watches, on an instance
  older than the next object: a successful assignment adds to the sync events of the
  instance exactly one event, with the id of the instance, the property name and the
  stored value, when the declaration has \<open>sync\<close> and \<open>_dropsync\<close> is false, and none
  otherwise. The stored value is the transformed one.
\<close>

theorem sync_event_of_a_write:
  assumes acc: "map_of (accessors (snd s)) name = Some (d, en)"
    and noobs: "observers_of (snd s) name = []"
    and wf: "oid (snd s) < objects (fst s)"
    and run: "assign n ds s name v = Some (None, s')"
  shows "syncs_of (oid (snd s)) (fst s') =
           syncs_of (oid (snd s)) (fst s) @
             (if sync d \<and> \<not> dropsync (snd s)
              then [Sync (oid (snd s)) (read (snd s') ''id'') name (lookup (data_store (snd s')) name)]
              else [])
     \<and> (\<forall>f. the_set d = Transform f \<longrightarrow> lookup (data_store (snd s')) name = f v)"
  using acc run
proof (cases rule: assign_cases)
  case (set k w v')
  from noobs have "observers_of (snd (w, snd s)) name = []" by simp
  from set_prop_no_observers[OF this set(2)]
  have m: "snd s' = (snd s)\<lparr>data_store := put (data_store (snd s)) name v',
                         emitted := emitted (snd s) @ [(name, v')]\<rparr>"
    and w': "fst s' = (if sync d \<and> \<not> dropsync (snd s)
                 then emit_process (Sync (oid (snd s)) (read (snd s') ''id'') name v') w
                 else w)"
    by simp_all
  from set(3) wf have q: "syncs_of (oid (snd s)) w = syncs_of (oid (snd s)) (fst s)"
    by (rule grows_syncs_of)
  from m have st: "lookup (data_store (snd s')) name = v'" by (simp add: lookup_put)
  from w' q st have "syncs_of (oid (snd s)) (fst s') =
           syncs_of (oid (snd s)) (fst s) @
             (if sync d \<and> \<not> dropsync (snd s)
              then [Sync (oid (snd s)) (read (snd s') ''id'') name (lookup (data_store (snd s')) name)]
              else [])"
    by (simp add: syncs_of_emit_process)
  with st set(4) show ?thesis by simp
next
  case (child_failed k w e)
  then show ?thesis by simp
qed

theorem sync_event_of_a_write_witness:
  "syncs_of 0 (fst (state_of (assign 3 test_defs model_a ''syncTest'' (VStr ''syncTestData''))))
     = syncs_of 0 (fst model_a) @ [Sync 0 (VStr ''a'') ''syncTest'' (VStr ''syncTestData'')]"
proof -
  let ?r = "assign 3 test_defs model_a ''syncTest'' (VStr ''syncTestData'')"
  have h: "(case map_of (accessors (snd model_a)) ''syncTest'' of
          Some (d, en) \<Rightarrow> sync d | None \<Rightarrow> False)
        \<and> length (observers_of (snd model_a) ''syncTest'') = 0
        \<and> oid (snd model_a) = 0 \<and> 0 < objects (fst model_a) \<and> \<not> dropsync (snd model_a)"
    unfolding model_a_def by code_simp
  have t: "thrown ?r = Some None \<and> read (snd (state_of ?r)) ''id'' = VStr ''a''
       \<and> lookup (data_store (snd (state_of ?r))) ''syncTest'' = VStr ''syncTestData''"
    unfolding model_a_def by code_simp
  from h obtain d en where acc: "map_of (accessors (snd model_a)) ''syncTest'' = Some (d, en)"
    and sy: "sync d"
    by (auto split: option.splits)
  from h have noobs: "observers_of (snd model_a) ''syncTest'' = []" by simp
  from h have wf: "oid (snd model_a) < objects (fst model_a)" by simp
  from t have run: "?r = Some (None, state_of ?r)" by (simp add: thrown_state)
  from sync_event_of_a_write[OF acc noobs wf run] sy h t
  show ?thesis by simp
qed

text \<open>
  C3 as stated fails: \<open>edit\<close> is declared without \<open>sync\<close>, and assigning it emits a
  sync event, the one of \<open>locked\<close>, whose observer watches \<open>edit\<close>.
\<close>

theorem assigning_edit_emits_sync_of_locked:
  "declared_sync (snd model_a) ''edit'' = Some False
   \<and> thrown (assign 3 test_defs model_a ''edit'' (VBool True)) = Some None
   \<and> syncs_of (oid (snd model_a)) (fst (state_of (assign 3 test_defs model_a ''edit'' (VBool True))))
       = [Sync 0 (VStr ''a'') ''locked'' (VBool True)]"
  unfolding model_a_def by code_simp

section \<open>Properties: inbound sync\<close>








section \<open>Properties: has-one\<close>









end
